theory Spec2Isabelle
  imports Complex_Main "HOL-Library.Word"
begin

unbundle bit_operations_syntax

section \<open>Data model of the dashboard controller (src/main.c)\<close>

type_synonym u8 = "8 word"
type_synonym u16 = "16 word"
type_synonym rgb = "u8 \<times> u8 \<times> u8"

subsection \<open>Lightstrip settings (main.c, lines 28-33)\<close>

definition BRIGHTNESS :: u8 where "BRIGHTNESS = 3"
definition NUM_GREEN_LEDS :: nat where "NUM_GREEN_LEDS = 18"
definition NUM_YELLOW_LEDS :: nat where "NUM_YELLOW_LEDS = 6"
definition NUM_RED_LEDS :: nat where "NUM_RED_LEDS = 6"
definition NUM_LEDS :: nat where
  "NUM_LEDS = NUM_GREEN_LEDS + NUM_YELLOW_LEDS + NUM_RED_LEDS"
definition MAX_RPM :: nat where "MAX_RPM = 12000"

text \<open>
  The bit masks \<open>BIT0\<close>, \<open>BIT1\<close>, \<open>BIT4\<close>, \<open>BIT5\<close> are macros of the vendor header
  msp.h, which is not among the sources. They are the masks of the single bits 0, 1, 4
  and 5; the handler's own literal \<open>0x30\<close> ("all relays off") is \<open>BIT4 | BIT5\<close>.
\<close>

definition BIT0 :: u8 where "BIT0 = 0x01"
definition BIT1 :: u8 where "BIT1 = 0x02"
definition BIT4 :: u8 where "BIT4 = 0x10"
definition BIT5 :: u8 where "BIT5 = 0x20"

subsection \<open>Seven-segment tables (main.c, lines 55-56)\<close>

definition gearON :: "u8 list" where
  "gearON = [0x77, 0x05, 0xB3, 0xA7, 0xC5, 0xE6, 0xF6, 0x07, 0xF7, 0xE7]"

definition gearOFF :: "u8 list" where
  "gearOFF = [0x88, 0xFA, 0x4C, 0x58, 0x3A, 0x19, 0x09, 0xF8, 0x08, 0x18]"

subsection \<open>Global variables and the device registers the program writes\<close>

text \<open>
  One record holds the globals of main.c (lines 45-54) and the three port registers that
  the main loop and the port-6 handler write. An entry of \<open>lightstrip\<close> is the triple
  (red, green, blue) of the source's \<open>lightstrip[i][0..2]\<close>. \<open>spi\<close> is the sequence of
  bytes loaded into the transmit buffer \<open>EUSCI_A2->TXBUF\<close> so far, oldest first. The loop
  counter \<open>i\<close> is a global in the source; every loop sets it before use, so the loops
  below carry it as an argument.
\<close>

record dash =
  P4OUT :: u8
  P6IFG :: u8
  P8OUT :: u8
  lightstrip :: "rgb list"
  rpm :: u16
  ledsON :: u8
  rpmCaptureValue :: u16
  gearIndex :: u8
  LSflash_flag :: bool
  LSflag :: bool
  up_flag :: bool
  down_flag :: bool
  spi :: "u8 list"

section \<open>Gear display update (main.c, lines 92-93 and 98-99)\<close>

text \<open>
  \<open>P4OUT |= gearON[g]; P4OUT &= ~gearOFF[g];\<close> as a function of the port's old value.
\<close>

definition show_gear :: "u8 \<Rightarrow> nat \<Rightarrow> u8" where
  "show_gear p g = (p OR gearON ! g) AND NOT (gearOFF ! g)"

section \<open>Paddle and hall-sensor interrupt (main.c, lines 322-346)\<close>

definition PORT6_IRQHandler :: "dash \<Rightarrow> dash" where
  "PORT6_IRQHandler st =
    (let st1 =
       (if P6IFG st AND BIT0 \<noteq> 0 then
          st\<lparr>P8OUT := (P8OUT st OR BIT4) AND NOT BIT5\<rparr>
        else if P6IFG st AND BIT1 \<noteq> 0 then
          st\<lparr>P8OUT := (P8OUT st OR BIT5) AND NOT BIT4\<rparr>
        else if P6IFG st AND BIT4 \<noteq> 0 then
          st\<lparr>P8OUT := P8OUT st AND NOT 0x30, up_flag := True\<rparr>
        else if P6IFG st AND BIT5 \<noteq> 0 then
          st\<lparr>P8OUT := P8OUT st AND NOT 0x30, down_flag := True\<rparr>
        else st)
     in st1\<lparr>P6IFG := P6IFG st1 AND NOT 0xFF\<rparr>)"

text \<open>
  The same handler statement by statement: the state after each assignment that one entry
  executes, in the order of the source. \<open>P8OUT\<close> is the output register of the relay
  pins, so each of its values here is what the pins carry until the next write. The last
  state of the list is the result of \<open>PORT6_IRQHandler\<close> (lemma
  \<open>PORT6_IRQHandler_steps_last\<close>).
\<close>

definition PORT6_IRQHandler_steps :: "dash \<Rightarrow> dash list" where
  "PORT6_IRQHandler_steps st =
    (let body =
       (if P6IFG st AND BIT0 \<noteq> 0 then
          (let a = st\<lparr>P8OUT := P8OUT st OR BIT4\<rparr>;
               b = a\<lparr>P8OUT := P8OUT a AND NOT BIT5\<rparr>
           in [a, b])
        else if P6IFG st AND BIT1 \<noteq> 0 then
          (let a = st\<lparr>P8OUT := P8OUT st OR BIT5\<rparr>;
               b = a\<lparr>P8OUT := P8OUT a AND NOT BIT4\<rparr>
           in [a, b])
        else if P6IFG st AND BIT4 \<noteq> 0 then
          (let a = st\<lparr>P8OUT := P8OUT st AND NOT 0x30\<rparr>;
               b = a\<lparr>up_flag := True\<rparr>
           in [a, b])
        else if P6IFG st AND BIT5 \<noteq> 0 then
          (let a = st\<lparr>P8OUT := P8OUT st AND NOT 0x30\<rparr>;
               b = a\<lparr>down_flag := True\<rparr>
           in [a, b])
        else []);
         st1 = last (st # body)
     in body @ [st1\<lparr>P6IFG := P6IFG st1 AND NOT 0xFF\<rparr>])"

text \<open>
  The three relay conditions of the interlock, read from the two relay output pins
  (P8.4 up, P8.5 down). Both pins high is not one of the three; it gets a value of its own
  so that its absence is a theorem.
\<close>

datatype relay = Idle | UpRelayEngaged | DownRelayEngaged | BothEngaged

definition RelayState :: "dash \<Rightarrow> relay" where
  "RelayState st =
    (if P8OUT st AND BIT4 \<noteq> 0 then
       (if P8OUT st AND BIT5 \<noteq> 0 then BothEngaged else UpRelayEngaged)
     else if P8OUT st AND BIT5 \<noteq> 0 then DownRelayEngaged else Idle)"

text \<open>
  The four logical edge signals and their input lines, as the handler's comments name them
  (bit 0 up paddle, bit 1 down paddle, bit 4 up hall effect, bit 5 down hall effect).
  \<open>serviced\<close> is the line the handler's if-chain acts on for a given content of the
  pending-flag register.
\<close>

datatype signal = UpPaddlePulled | DownPaddlePulled | UpShiftConfirmed | DownShiftConfirmed

fun line :: "signal \<Rightarrow> u8" where
  "line UpPaddlePulled = BIT0"
| "line DownPaddlePulled = BIT1"
| "line UpShiftConfirmed = BIT4"
| "line DownShiftConfirmed = BIT5"

definition serviced :: "u8 \<Rightarrow> signal option" where
  "serviced f =
    (if f AND BIT0 \<noteq> 0 then Some UpPaddlePulled
     else if f AND BIT1 \<noteq> 0 then Some DownPaddlePulled
     else if f AND BIT4 \<noteq> 0 then Some UpShiftConfirmed
     else if f AND BIT5 \<noteq> 0 then Some DownShiftConfirmed
     else None)"

section \<open>Lightstrip driver (main.c, lines 234-267)\<close>

text \<open>
  \<open>sendSPIbyte\<close> waits for the transmitter's busy bit to clear and loads the byte into
  the transmit buffer; the model records the byte.
\<close>

definition sendSPIbyte :: "u8 \<Rightarrow> dash \<Rightarrow> dash" where
  "sendSPIbyte s st = st\<lparr>spi := spi st @ [s]\<rparr>"

definition sendLS_START :: "dash \<Rightarrow> dash" where
  "sendLS_START st = sendSPIbyte 0 (sendSPIbyte 0 (sendSPIbyte 0 (sendSPIbyte 0 st)))"

definition sendLS :: "u8 \<Rightarrow> u8 \<Rightarrow> u8 \<Rightarrow> dash \<Rightarrow> dash" where
  "sendLS red green blue st =
     sendSPIbyte red (sendSPIbyte green (sendSPIbyte blue (sendSPIbyte (224 + BRIGHTNESS) st)))"

function clearLS_loop :: "nat \<Rightarrow> dash \<Rightarrow> dash" where
  "clearLS_loop i st =
    (if i \<le> NUM_LEDS then
       clearLS_loop (i + 1)
         (sendSPIbyte 0 (sendSPIbyte 0 (sendSPIbyte 0 (sendSPIbyte 224 st))))
     else st)"
  by pat_completeness auto
termination
  by (relation "measure (\<lambda>(i, st). Suc NUM_LEDS - i)") auto

definition clearLS :: "dash \<Rightarrow> dash" where
  "clearLS st = clearLS_loop 0 (sendLS_START st)"

section \<open>Tachometer count to lightstrip (main.c, lines 269-304)\<close>

text \<open>
  Lines 271-276. The source computes
  \<open>(uint16_t)((750000.0 * 60.0) / ((float)rpmCaptureValue * 8.0))\<close>.
  Every 16-bit count is exact as a float, and so are the product with 8 and the constant
  45000000 in double precision. The double quotient differs from the exact quotient \<open>q\<close>
  by less than a billionth, while a \<open>q\<close> that is no integer is at least 1/524280
  away from one, and an integer \<open>q\<close> is computed exactly; so the
  conversion to an integer, which discards the fraction, yields the integer quotient
  written here (lemma \<open>rpm_of_capture_double\<close> below). For counts from 1 to 85 the
  quotient exceeds 65535 and C leaves the conversion to \<open>uint16_t\<close> undefined; the model
  keeps the low 16 bits there, as a conversion to a 32-bit integer followed by narrowing
  does, and no theorem below relies on the value in that range.
\<close>

definition rpm_of_capture :: "u16 \<Rightarrow> u16" where
  "rpm_of_capture t =
    (if t = 0 then 0 else word_of_nat ((750000 * 60) div (unat t * 8)))"

text \<open>
  Line 278: \<open>ledsON = (rpm * NUM_LEDS) / (MAX_RPM - 1500)\<close>, computed in \<open>int\<close>
  (at most 65535 * 30) and stored in a \<open>uint8_t\<close>.
\<close>

definition leds_of_rpm :: "u16 \<Rightarrow> u8" where
  "leds_of_rpm r = word_of_nat ((unat r * NUM_LEDS) div (MAX_RPM - 1500))"

function rpmtoLS_red_loop :: "nat \<Rightarrow> dash \<Rightarrow> dash" where
  "rpmtoLS_red_loop i st =
    (if i < NUM_LEDS then rpmtoLS_red_loop (i + 1) (sendLS 255 0 0 st) else st)"
  by pat_completeness auto
termination
  by (relation "measure (\<lambda>(i, st). NUM_LEDS - i)") auto

text \<open>
  Lines 299-302. \<open>lightstrip[i]\<close> is read only for \<open>i < ledsON\<close>, and this loop runs only
  when \<open>ledsON\<close> is at most \<open>NUM_LEDS\<close>, the length of the table.
\<close>

function rpmtoLS_bar_loop :: "nat \<Rightarrow> dash \<Rightarrow> dash" where
  "rpmtoLS_bar_loop i st =
    (if i < unat (ledsON st) then
       rpmtoLS_bar_loop (i + 1)
         (case lightstrip st ! i of (r, g, b) \<Rightarrow> sendLS r g b st)
     else st)"
  by pat_completeness auto
termination
  by (relation "measure (\<lambda>(i, st). unat (ledsON st) - i)")
     (auto simp: sendLS_def sendSPIbyte_def split: prod.splits)

definition rpmtoLS :: "dash \<Rightarrow> dash" where
  "rpmtoLS st =
    (let st1 = st\<lparr>rpm := rpm_of_capture (rpmCaptureValue st)\<rparr>;
         st2 = st1\<lparr>ledsON := leds_of_rpm (rpm st1)\<rparr>;
         st3 = clearLS st2
     in if unat (ledsON st3) > NUM_LEDS then
          (if LSflash_flag st3 then rpmtoLS_red_loop 0 (sendLS_START st3)
           else clearLS st3)
        else rpmtoLS_bar_loop 0 (sendLS_START st3))"

section \<open>Timer interrupts (main.c, lines 306-320)\<close>

definition TA1_0_IRQHandler :: "dash \<Rightarrow> dash" where
  "TA1_0_IRQHandler st = st\<lparr>LSflash_flag := \<not> LSflash_flag st\<rparr>"

text \<open>The argument is the captured count \<open>TIMER_A0->CCR[0]\<close>.\<close>

definition TA0_0_IRQHandler :: "u16 \<Rightarrow> dash \<Rightarrow> dash" where
  "TA0_0_IRQHandler ccr0 st = st\<lparr>rpmCaptureValue := ccr0, LSflag := True\<rparr>"

section \<open>Start-up and main loop (main.c, lines 58-103 and 121-173)\<close>

text \<open>The writes of \<open>pinInit\<close> to the three ports of the model.\<close>

definition pinInit :: "dash \<Rightarrow> dash" where
  "pinInit st =
    st\<lparr>P4OUT := P4OUT st AND NOT 0xFF,
       P6IFG := P6IFG st AND NOT 0xFF,
       P8OUT := P8OUT st AND NOT 0x70\<rparr>"

function main_color_loop :: "nat \<Rightarrow> rgb list \<Rightarrow> rgb list" where
  "main_color_loop i ls =
    (if i < NUM_LEDS then
       main_color_loop (i + 1)
         (if i < NUM_GREEN_LEDS then ls[i := (0, 255, 0)]
          else if i < NUM_GREEN_LEDS + NUM_YELLOW_LEDS \<and> i \<ge> NUM_GREEN_LEDS
            then ls[i := (255, 255, 0)]
          else ls[i := (255, 0, 0)])
     else ls)"
  by pat_completeness auto
termination
  by (relation "measure (\<lambda>(i, ls). NUM_LEDS - i)") auto

text \<open>
  The globals as their initialisers leave them (zero where there is none), with the
  three port registers at whatever value they hold at reset.
\<close>

definition reset_state :: "u8 \<Rightarrow> u8 \<Rightarrow> u8 \<Rightarrow> dash" where
  "reset_state p4 p6 p8 =
    \<lparr>P4OUT = p4, P6IFG = p6, P8OUT = p8,
     lightstrip = replicate NUM_LEDS (0, 0, 0),
     rpm = 0, ledsON = 0, rpmCaptureValue = 0, gearIndex = 1,
     LSflash_flag = False, LSflag = False, up_flag = False, down_flag = False,
     spi = []\<rparr>"

text \<open>\<open>main\<close> up to the \<open>while (1)\<close>.\<close>

definition main_setup :: "dash \<Rightarrow> dash" where
  "main_setup st =
    (let st1 = pinInit st in st1\<lparr>lightstrip := main_color_loop 0 (lightstrip st1)\<rparr>)"

text \<open>One pass through the body of \<open>while (1)\<close> (lines 86-101).\<close>

definition main_loop_body :: "dash \<Rightarrow> dash" where
  "main_loop_body st =
    (let st1 = (if LSflag st then (rpmtoLS st)\<lparr>LSflag := False\<rparr> else st)
     in if up_flag st1 \<and> gearIndex st1 < 6 then
          (let st2 = st1\<lparr>gearIndex := gearIndex st1 + 1\<rparr>;
               st3 = st2\<lparr>P4OUT := P4OUT st2 OR gearON ! unat (gearIndex st2)\<rparr>;
               st4 = st3\<lparr>P4OUT := P4OUT st3 AND NOT (gearOFF ! unat (gearIndex st3))\<rparr>
           in st4\<lparr>up_flag := False\<rparr>)
        else if down_flag st1 \<and> gearIndex st1 > 1 then
          (let st2 = st1\<lparr>gearIndex := gearIndex st1 - 1\<rparr>;
               st3 = st2\<lparr>P4OUT := P4OUT st2 OR gearON ! unat (gearIndex st2)\<rparr>;
               st4 = st3\<lparr>P4OUT := P4OUT st3 AND NOT (gearOFF ! unat (gearIndex st3))\<rparr>
           in st4\<lparr>down_flag := False\<rparr>)
        else st1)"

section \<open>Runs of the program\<close>

text \<open>
  What happens between two observations of the state: a falling edge on some of the
  port-6 lines sets their pending flags, one of the three interrupt handlers runs, or the
  main loop makes one pass. Handlers and passes are taken as indivisible.
\<close>

datatype event = Edge u8 | Port6IRQ | TachIRQ u16 | FlashIRQ | MainPass

fun step :: "dash \<Rightarrow> event \<Rightarrow> dash" where
  "step st (Edge m) = st\<lparr>P6IFG := P6IFG st OR m\<rparr>"
| "step st Port6IRQ = PORT6_IRQHandler st"
| "step st (TachIRQ c) = TA0_0_IRQHandler c st"
| "step st FlashIRQ = TA1_0_IRQHandler st"
| "step st MainPass = main_loop_body st"

definition run :: "dash \<Rightarrow> event list \<Rightarrow> dash" where
  "run st evs = foldl step st evs"

definition boot :: "u8 \<Rightarrow> u8 \<Rightarrow> u8 \<Rightarrow> dash" where
  "boot p4 p6 p8 = main_setup (reset_state p4 p6 p8)"

section \<open>Notions used to state the properties\<close>

subsection \<open>Frames on the wire\<close>

text \<open>
  The byte sequences the driver functions put on the serial link: the start frame of
  \<open>sendLS_START\<close>, the frame of \<open>sendLS\<close> for a colour (header, blue, green, red), the
  frame \<open>clearLS\<close> sends per LED, and the bytes a call has added to the link.
\<close>

definition start_frame :: "u8 list" where
  "start_frame = [0, 0, 0, 0]"

definition frame_of :: "u8 \<Rightarrow> rgb \<Rightarrow> u8 list" where
  "frame_of h c = (case c of (r, g, b) \<Rightarrow> [h, b, g, r])"

definition led_frame :: "rgb \<Rightarrow> u8 list" where
  "led_frame c = frame_of (224 + BRIGHTNESS) c"

definition blank_frame :: "u8 list" where
  "blank_frame = frame_of 224 (0, 0, 0)"

definition blank_strip :: "u8 list" where
  "blank_strip = start_frame @ concat (replicate (Suc NUM_LEDS) blank_frame)"

text \<open>
  The bytes one call of \<open>rpmtoLS\<close> adds to the link, in closed form (lemma \<open>rpmtoLS_eq\<close>
  below shows that the loops of the source produce exactly these).
\<close>

definition rendered :: "dash \<Rightarrow> u8 list" where
  "rendered st =
    (let k = unat (leds_of_rpm (rpm_of_capture (rpmCaptureValue st)))
     in blank_strip @
        (if NUM_LEDS < k then
           (if LSflash_flag st
            then start_frame @ concat (replicate NUM_LEDS (led_frame (255, 0, 0)))
            else blank_strip)
         else start_frame @ concat (map (\<lambda>j. led_frame (lightstrip st ! j)) [0..<k])))"

definition sent :: "dash \<Rightarrow> dash \<Rightarrow> u8 list" where
  "sent st st' = drop (length (spi st)) (spi st')"

text \<open>The colour table as \<open>main\<close> loads it before the main loop.\<close>

definition LedZoneTable :: "rgb list" where
  "LedZoneTable = main_color_loop 0 (replicate NUM_LEDS (0, 0, 0))"

subsection \<open>The strip\<close>

text \<open>
  Modelled from the spec: the LED strip is hardware at the far end of the serial link and
  no code of the repository describes it. Following the framing protocol of the spec
  (section 4.5): the strip reads the link in frames of four bytes; a start frame (four
  zero bytes) resets its frame pointer; any other frame sets the LED at the pointer to the
  frame's colour and advances the pointer; frames past the last LED have no LED to set.
  An LED is lit when its colour is not all zero.
\<close>

fun strip_feed :: "nat \<times> rgb list \<Rightarrow> u8 list \<Rightarrow> nat \<times> rgb list" where
  "strip_feed (p, leds) (h # b # g # r # bs) =
    (if h = 0 \<and> b = 0 \<and> g = 0 \<and> r = 0 then strip_feed (0, leds) bs
     else strip_feed (p + 1, if p < length leds then leds[p := (r, g, b)] else leds) bs)"
| "strip_feed s bs = s"

definition lit :: "rgb \<Rightarrow> bool" where
  "lit c = (c \<noteq> (0, 0, 0))"

subsection \<open>Counting along a run\<close>

text \<open>
  The number of steps of a run that change the gear index, and the number of handler
  entries that service a hall-sensor confirmation.
\<close>

fun gear_changes :: "dash \<Rightarrow> event list \<Rightarrow> nat" where
  "gear_changes st [] = 0"
| "gear_changes st (e # es) =
    (if gearIndex (step st e) \<noteq> gearIndex st then 1 else 0) + gear_changes (step st e) es"

definition confirms :: "dash \<Rightarrow> event \<Rightarrow> bool" where
  "confirms st e =
    (e = Port6IRQ \<and>
     (serviced (P6IFG st) = Some UpShiftConfirmed \<or>
      serviced (P6IFG st) = Some DownShiftConfirmed))"

fun confirmations :: "dash \<Rightarrow> event list \<Rightarrow> nat" where
  "confirmations st [] = 0"
| "confirmations st (e # es) =
    (if confirms st e then 1 else 0) + confirmations (step st e) es"

text \<open>The events of one paddle pull and of one confirmed shift, as a run sees them.\<close>

definition pull :: "signal \<Rightarrow> event list" where
  "pull s = [Edge (line s), Port6IRQ]"

definition upshift :: "event list" where
  "upshift = pull UpPaddlePulled @ pull UpShiftConfirmed @ [MainPass]"

definition downshift :: "event list" where
  "downshift = pull DownPaddlePulled @ pull DownShiftConfirmed @ [MainPass]"

subsection \<open>The conversion the spec describes\<close>

text \<open>
  The spec's speed for a tick count \<open>t\<close>: \<open>(F * 60) / (t * P)\<close> rounded to the nearest
  integer, with \<open>F = 750000\<close> and \<open>P = 8\<close>.
\<close>

definition spec_rpm :: "nat \<Rightarrow> int" where
  "spec_rpm t = round ((750000 * 60) / (real t * 8))"

section \<open>Basic facts\<close>

declare clearLS_loop.simps [simp del]
declare rpmtoLS_red_loop.simps [simp del]
declare rpmtoLS_bar_loop.simps [simp del]
declare main_color_loop.simps [simp del]

lemmas led_consts = NUM_LEDS_def NUM_GREEN_LEDS_def NUM_YELLOW_LEDS_def NUM_RED_LEDS_def

lemmas bit_consts = BIT0_def BIT1_def BIT4_def BIT5_def

subsection \<open>Bits of the masks and the port-6 handler\<close>

lemma BIT_exp: "BIT0 = 2 ^ 0" "BIT1 = 2 ^ 1" "BIT4 = 2 ^ 4" "BIT5 = 2 ^ 5"
  by (simp_all add: bit_consts)

lemma bit_BIT [simp]:
  "bit BIT0 n \<longleftrightarrow> n = 0" "bit BIT1 n \<longleftrightarrow> n = 1"
  "bit BIT4 n \<longleftrightarrow> n = 4" "bit BIT5 n \<longleftrightarrow> n = 5"
  unfolding BIT_exp bit_exp_iff by auto

lemma test_BIT:
  "(p AND BIT0 \<noteq> 0) = bit p 0" "(p AND BIT1 \<noteq> 0) = bit p 1"
  "(p AND BIT4 \<noteq> 0) = bit p 4" "(p AND BIT5 \<noteq> 0) = bit p 5"
  unfolding BIT_exp and_exp_eq_0_iff_not_bit by simp_all

lemma mask_30: "(0x30 :: u8) = BIT4 OR BIT5"
  by (simp add: bit_consts)

lemma bit_pins_off: "bit (p AND NOT (0x70 :: u8)) n = (n \<noteq> 4 \<and> n \<noteq> 5 \<and> n \<noteq> 6 \<and> bit p n)"
proof -
  have m: "(0x70 :: u8) = BIT4 OR BIT5 OR 2 ^ 6"
    by (simp add: bit_consts)
  show ?thesis
    unfolding m by (auto simp add: bit_simps simp del: power_numeral dest: bit_imp_le_length)
qed

lemma bit_up_on: "bit ((p OR BIT4) AND NOT BIT5) n = (n = 4 \<or> n \<noteq> 5 \<and> bit p n)"
  by (auto simp add: bit_simps dest: bit_imp_le_length)

lemma bit_down_on: "bit ((p OR BIT5) AND NOT BIT4) n = (n = 5 \<or> n \<noteq> 4 \<and> bit p n)"
  by (auto simp add: bit_simps dest: bit_imp_le_length)

lemma bit_relays_off: "bit (p AND NOT (0x30 :: u8)) n = (n \<noteq> 4 \<and> n \<noteq> 5 \<and> bit p n)"
  unfolding mask_30 by (auto simp add: bit_simps dest: bit_imp_le_length)

lemma clear_all [simp]: "p AND NOT (0xFF :: u8) = 0"
proof -
  have "(0xFF :: u8) = - 1" by simp
  then show ?thesis by (simp only: bit.compl_one and_zero_eq)
qed

lemma bit_relays_off' [simp]: "bit (p AND - 49 :: u8) n = (n \<noteq> 4 \<and> n \<noteq> 5 \<and> bit p n)"
  using bit_relays_off [of p n] by simp

lemma bit_pins_off' [simp]:
  "bit (p AND - 113 :: u8) n = (n \<noteq> 4 \<and> n \<noteq> 5 \<and> n \<noteq> 6 \<and> bit p n)"
  using bit_pins_off [of p n] by simp

lemma clear_all' [simp]: "p AND - 256 = (0 :: u8)"
  using clear_all [of p] by simp

lemma RelayState_bits:
  "RelayState st =
    (if bit (P8OUT st) 4 then (if bit (P8OUT st) 5 then BothEngaged else UpRelayEngaged)
     else if bit (P8OUT st) 5 then DownRelayEngaged else Idle)"
  by (simp add: RelayState_def test_BIT)

lemma serviced_bits:
  "serviced f =
    (if bit f 0 then Some UpPaddlePulled else if bit f 1 then Some DownPaddlePulled
     else if bit f 4 then Some UpShiftConfirmed else if bit f 5 then Some DownShiftConfirmed
     else None)"
  by (simp add: serviced_def test_BIT)

lemma serviced_line: "serviced (line s) = Some s"
  by (cases s) (simp_all add: serviced_bits)

lemma handler_P8OUT:
  "P8OUT (PORT6_IRQHandler st) =
    (case serviced (P6IFG st) of
       Some UpPaddlePulled \<Rightarrow> (P8OUT st OR BIT4) AND NOT BIT5
     | Some DownPaddlePulled \<Rightarrow> (P8OUT st OR BIT5) AND NOT BIT4
     | Some UpShiftConfirmed \<Rightarrow> P8OUT st AND NOT 0x30
     | Some DownShiftConfirmed \<Rightarrow> P8OUT st AND NOT 0x30
     | None \<Rightarrow> P8OUT st)"
  by (simp add: PORT6_IRQHandler_def serviced_def Let_def)

lemma handler_RelayState:
  "RelayState (PORT6_IRQHandler st) =
    (case serviced (P6IFG st) of
       Some UpPaddlePulled \<Rightarrow> UpRelayEngaged
     | Some DownPaddlePulled \<Rightarrow> DownRelayEngaged
     | Some UpShiftConfirmed \<Rightarrow> Idle
     | Some DownShiftConfirmed \<Rightarrow> Idle
     | None \<Rightarrow> RelayState st)"
  by (simp add: RelayState_bits handler_P8OUT bit_up_on bit_down_on bit_relays_off
      split: option.split signal.split)

lemma handler_P6IFG: "P6IFG (PORT6_IRQHandler st) = 0"
  by (simp add: PORT6_IRQHandler_def Let_def)

lemma handler_gearIndex: "gearIndex (PORT6_IRQHandler st) = gearIndex st"
  by (simp add: PORT6_IRQHandler_def Let_def)

lemma handler_flags:
  "up_flag (PORT6_IRQHandler st) = (up_flag st \<or> serviced (P6IFG st) = Some UpShiftConfirmed)"
  "down_flag (PORT6_IRQHandler st) = (down_flag st \<or> serviced (P6IFG st) = Some DownShiftConfirmed)"
  by (simp_all add: PORT6_IRQHandler_def serviced_def Let_def)

subsection \<open>What the driver puts on the link\<close>

lemma sendLS_START_spi: "sendLS_START st = st\<lparr>spi := spi st @ start_frame\<rparr>"
  by (simp add: sendLS_START_def sendSPIbyte_def start_frame_def)

lemma sendLS_spi: "sendLS r g b st = st\<lparr>spi := spi st @ led_frame (r, g, b)\<rparr>"
  by (simp add: sendLS_def sendSPIbyte_def led_frame_def frame_of_def)

lemma clearLS_loop_spi:
  "clearLS_loop i st =
     st\<lparr>spi := spi st @ concat (replicate (Suc NUM_LEDS - i) blank_frame)\<rparr>"
proof (induction i st rule: clearLS_loop.induct)
  case (1 i st)
  show ?case
  proof (cases "i \<le> NUM_LEDS")
    case True
    then have "Suc NUM_LEDS - i = Suc (Suc NUM_LEDS - (i + 1))" by simp
    with True "1" show ?thesis
      by (subst clearLS_loop.simps) (simp add: sendSPIbyte_def blank_frame_def frame_of_def)
  next
    case False
    then show ?thesis by (subst clearLS_loop.simps) simp
  qed
qed

lemma clearLS_spi: "clearLS st = st\<lparr>spi := spi st @ blank_strip\<rparr>"
  by (simp add: clearLS_def clearLS_loop_spi sendLS_START_spi blank_strip_def)

lemma red_loop_spi:
  "rpmtoLS_red_loop i st =
     st\<lparr>spi := spi st @ concat (replicate (NUM_LEDS - i) (led_frame (255, 0, 0)))\<rparr>"
proof (induction i st rule: rpmtoLS_red_loop.induct)
  case (1 i st)
  show ?case
  proof (cases "i < NUM_LEDS")
    case True
    then have "NUM_LEDS - i = Suc (NUM_LEDS - (i + 1))" by simp
    with True "1" show ?thesis
      by (subst rpmtoLS_red_loop.simps) (simp add: sendLS_spi)
  next
    case False
    then show ?thesis by (subst rpmtoLS_red_loop.simps) simp
  qed
qed

lemma bar_loop_spi:
  "rpmtoLS_bar_loop i st =
     st\<lparr>spi := spi st @
             concat (map (\<lambda>j. led_frame (lightstrip st ! j)) [i..<unat (ledsON st)])\<rparr>"
proof (induction i st rule: rpmtoLS_bar_loop.induct)
  case (1 i st)
  show ?case
  proof (cases "i < unat (ledsON st)")
    case True
    obtain r g b where c: "lightstrip st ! i = (r, g, b)"
      by (cases "lightstrip st ! i")
    from True have u: "[i..<unat (ledsON st)] = i # [i + 1..<unat (ledsON st)]"
      by (simp add: upt_conv_Cons)
    from True "1" [OF True] show ?thesis
      by (subst rpmtoLS_bar_loop.simps) (simp add: sendLS_spi c u)
  next
    case False
    then show ?thesis by (subst rpmtoLS_bar_loop.simps) simp
  qed
qed

lemma rpmtoLS_eq:
  "rpmtoLS st =
    st\<lparr>rpm := rpm_of_capture (rpmCaptureValue st),
       ledsON := leds_of_rpm (rpm_of_capture (rpmCaptureValue st)),
       spi := spi st @ rendered st\<rparr>"
  by (simp add: rpmtoLS_def rendered_def Let_def clearLS_spi sendLS_START_spi red_loop_spi
      bar_loop_spi)

lemma sent_rpmtoLS: "sent st (rpmtoLS st) = rendered st"
  by (simp add: sent_def rpmtoLS_eq)

subsection \<open>Number of LEDs for a speed\<close>

lemma leds_bound: "(unat (r :: u16) * NUM_LEDS) div (MAX_RPM - 1500) < 256"
proof -
  have "unat r < 2 ^ LENGTH(16)" by (rule unsigned_less)
  then have "unat r < 65536" by simp
  then show ?thesis by (simp add: led_consts MAX_RPM_def)
qed

lemma unat_leds_of_rpm: "unat (leds_of_rpm r) = (unat r * NUM_LEDS) div (MAX_RPM - 1500)"
  unfolding leds_of_rpm_def using leds_bound [of r]
  by (simp add: unat_of_nat)

lemma leds_of_rpm_mono: "r \<le> r' \<Longrightarrow> leds_of_rpm r \<le> leds_of_rpm r'"
  by (simp add: word_le_nat_alt unat_leds_of_rpm div_le_mono)

subsection \<open>One pass of the main loop\<close>

lemma main_gearIndex:
  "gearIndex (main_loop_body st) =
    (if up_flag st \<and> gearIndex st < 6 then gearIndex st + 1
     else if down_flag st \<and> gearIndex st > 1 then gearIndex st - 1
     else gearIndex st)"
  by (simp add: main_loop_body_def Let_def rpmtoLS_eq)

lemma main_up_flag:
  "up_flag (main_loop_body st) = (up_flag st \<and> \<not> gearIndex st < 6)"
  by (auto simp add: main_loop_body_def Let_def rpmtoLS_eq)

lemma main_down_flag:
  "down_flag (main_loop_body st) =
    (down_flag st \<and> (up_flag st \<and> gearIndex st < 6 \<or> \<not> gearIndex st > 1))"
  by (auto simp add: main_loop_body_def Let_def rpmtoLS_eq)

lemma main_P4OUT:
  "P4OUT (main_loop_body st) =
    (if gearIndex (main_loop_body st) \<noteq> gearIndex st
     then show_gear (P4OUT st) (unat (gearIndex (main_loop_body st)))
     else P4OUT st)"
  by (simp add: main_loop_body_def Let_def rpmtoLS_eq show_gear_def)

lemma main_ports:
  "P8OUT (main_loop_body st) = P8OUT st"
  "P6IFG (main_loop_body st) = P6IFG st"
  "lightstrip (main_loop_body st) = lightstrip st"
  by (simp_all add: main_loop_body_def Let_def rpmtoLS_eq)

subsection \<open>Arithmetic of the gear index\<close>

lemma gear_up: "(g :: u8) < 6 \<Longrightarrow> unat (g + 1) = unat g + 1"
  by (simp add: word_less_nat_alt unat_word_ariths)

lemma gear_down: "(g :: u8) > 1 \<Longrightarrow> unat (g - 1) = unat g - 1"
  by (simp add: word_less_nat_alt unat_sub word_le_nat_alt)

lemma main_gear_unat:
  "unat (gearIndex (main_loop_body st)) =
    (if up_flag st \<and> unat (gearIndex st) < 6 then unat (gearIndex st) + 1
     else if down_flag st \<and> unat (gearIndex st) > 1 then unat (gearIndex st) - 1
     else unat (gearIndex st))"
proof -
  have lt: "(gearIndex st < 6) = (unat (gearIndex st) < 6)"
    by (simp add: word_less_nat_alt)
  have gt: "(1 < gearIndex st) = (1 < unat (gearIndex st))"
    by (simp add: word_less_nat_alt)
  show ?thesis
  proof (cases "up_flag st \<and> gearIndex st < 6")
    case True
    then show ?thesis using lt by (simp add: main_gearIndex gear_up)
  next
    case False
    then show ?thesis using lt gt by (auto simp add: main_gearIndex gear_down)
  qed
qed

subsection \<open>Fields after start-up\<close>

lemma boot_fields:
  "P8OUT (boot p4 p6 p8) = p8 AND NOT 0x70"
  "P6IFG (boot p4 p6 p8) = 0"
  "P4OUT (boot p4 p6 p8) = 0"
  "gearIndex (boot p4 p6 p8) = 1"
  "up_flag (boot p4 p6 p8) = False"
  "down_flag (boot p4 p6 p8) = False"
  "LSflag (boot p4 p6 p8) = False"
  "LSflash_flag (boot p4 p6 p8) = False"
  "lightstrip (boot p4 p6 p8) = LedZoneTable"
  "spi (boot p4 p6 p8) = []"
  by (simp_all add: boot_def main_setup_def pinInit_def reset_state_def Let_def
      LedZoneTable_def)

lemma boot_Idle: "RelayState (boot p4 p6 p8) = Idle"
  by (simp add: RelayState_bits boot_fields(1))

subsection \<open>Steps and runs\<close>

lemma run_Nil [simp]: "run st [] = st"
  by (simp add: run_def)

lemma run_Cons [simp]: "run st (e # es) = run (step st e) es"
  by (simp add: run_def)

lemma run_append: "run st (es @ es') = run (run st es) es'"
  by (simp add: run_def)

lemma step_RelayState:
  "RelayState (step st e) =
    (if e = Port6IRQ then RelayState (PORT6_IRQHandler st) else RelayState st)"
  by (cases e) (simp_all add: RelayState_def TA0_0_IRQHandler_def TA1_0_IRQHandler_def main_ports)

lemma step_RelayState_not_both:
  "RelayState st \<noteq> BothEngaged \<Longrightarrow> RelayState (step st e) \<noteq> BothEngaged"
  by (simp add: step_RelayState handler_RelayState split: option.split signal.split)

lemma run_RelayState_not_both:
  "RelayState st \<noteq> BothEngaged \<Longrightarrow> RelayState (run st evs) \<noteq> BothEngaged"
  by (induction evs arbitrary: st) (simp_all add: step_RelayState_not_both)

lemma step_gearIndex:
  "gearIndex (step st e) = (if e = MainPass then gearIndex (main_loop_body st) else gearIndex st)"
  by (cases e) (simp_all add: handler_gearIndex TA0_0_IRQHandler_def TA1_0_IRQHandler_def)

lemma step_gear_range:
  "1 \<le> unat (gearIndex st) \<and> unat (gearIndex st) \<le> 6 \<Longrightarrow>
   1 \<le> unat (gearIndex (step st e)) \<and> unat (gearIndex (step st e)) \<le> 6"
  by (auto simp add: step_gearIndex main_gear_unat)

lemma run_gear_range:
  "1 \<le> unat (gearIndex st) \<and> unat (gearIndex st) \<le> 6 \<Longrightarrow>
   1 \<le> unat (gearIndex (run st evs)) \<and> unat (gearIndex (run st evs)) \<le> 6"
proof (induction evs arbitrary: st)
  case Nil
  then show ?case by simp
next
  case (Cons e evs)
  from Cons.prems have "1 \<le> unat (gearIndex (step st e)) \<and> unat (gearIndex (step st e)) \<le> 6"
    by (rule step_gear_range)
  then show ?case using Cons.IH by simp
qed

lemma step_lightstrip: "lightstrip (step st e) = lightstrip st"
  by (cases e)
     (simp_all add: PORT6_IRQHandler_def Let_def TA0_0_IRQHandler_def TA1_0_IRQHandler_def
       main_ports)

lemma run_lightstrip: "lightstrip (run st evs) = lightstrip st"
  by (induction evs arbitrary: st) (simp_all add: step_lightstrip)

text \<open>Flags that are up, as a number.\<close>

lemma step_flags:
  "(if gearIndex (step st e) \<noteq> gearIndex st then 1 else 0) +
     (of_bool (up_flag (step st e)) + of_bool (down_flag (step st e)))
   \<le> (if confirms st e then 1 else 0) + (of_bool (up_flag st) + of_bool (down_flag st) :: nat)"
proof (cases e)
  case Port6IRQ
  then show ?thesis
    by (auto simp add: handler_gearIndex handler_flags confirms_def)
next
  case MainPass
  then show ?thesis
    by (auto simp add: main_gearIndex main_up_flag main_down_flag confirms_def)
qed (simp_all add: TA0_0_IRQHandler_def TA1_0_IRQHandler_def confirms_def)

lemma changes_le_confirmations:
  "gear_changes st evs \<le>
     confirmations st evs + (of_bool (up_flag st) + of_bool (down_flag st))"
proof (induction evs arbitrary: st)
  case Nil
  then show ?case by simp
next
  case (Cons e evs)
  have "gear_changes st (e # evs) =
      (if gearIndex (step st e) \<noteq> gearIndex st then 1 else 0) + gear_changes (step st e) evs"
    by simp
  also have "\<dots> \<le> (if gearIndex (step st e) \<noteq> gearIndex st then 1 else 0) +
      (confirmations (step st e) evs +
        (of_bool (up_flag (step st e)) + of_bool (down_flag (step st e))))"
    using Cons.IH [of "step st e"] by simp
  also have "\<dots> \<le> confirmations (step st e) evs +
      ((if confirms st e then 1 else 0) + (of_bool (up_flag st) + of_bool (down_flag st)))"
    using step_flags [of st e] by simp
  finally show ?case by simp
qed

subsection \<open>The colour table\<close>

lemma LedZoneTable_eq:
  "LedZoneTable =
     replicate 18 (0, 255, 0) @ replicate 6 (255, 255, 0) @ replicate 6 (255, 0, 0)"
  by code_simp

lemma length_LedZoneTable: "length LedZoneTable = NUM_LEDS"
  by (simp add: LedZoneTable_eq led_consts)

lemma LedZoneTable_lit: "j < NUM_LEDS \<Longrightarrow> lit (LedZoneTable ! j)"
  by (auto simp add: LedZoneTable_eq led_consts lit_def nth_append)

lemma map_nth_take: "k \<le> length xs \<Longrightarrow> map (\<lambda>j. f (xs ! j)) [0..<k] = map f (take k xs)"
  by (simp add: list_eq_iff_nth_eq)

subsection \<open>The strip reading frames\<close>

lemma strip_feed_start: "strip_feed (p, leds) (start_frame @ bs) = strip_feed (0, leds) bs"
  by (simp add: start_frame_def)

lemma strip_feed_frames:
  assumes "h \<noteq> 0"
  shows "\<exists>leds'. strip_feed (p, leds) (concat (map (frame_of h) cs) @ bs) =
             strip_feed (p + length cs, leds') bs \<and>
           length leds' = length leds \<and>
           (\<forall>j < length leds. leds' ! j =
              (if p \<le> j \<and> j < p + length cs then cs ! (j - p) else leds ! j))"
proof (induction cs arbitrary: p leds)
  case Nil
  show ?case by (intro exI [of _ leds]) auto
next
  case (Cons c cs)
  obtain r g b where c: "c = (r, g, b)" by (cases c)
  let ?l = "if p < length leds then leds[p := (r, g, b)] else leds"
  from Cons.IH [of "p + 1" ?l] obtain leds' where
    feed: "strip_feed (p + 1, ?l) (concat (map (frame_of h) cs) @ bs) =
             strip_feed (p + 1 + length cs, leds') bs"
    and len: "length leds' = length ?l"
    and nth: "\<forall>j < length ?l. leds' ! j =
              (if p + 1 \<le> j \<and> j < p + 1 + length cs then cs ! (j - (p + 1)) else ?l ! j)"
    by blast
  have "strip_feed (p, leds) (concat (map (frame_of h) (c # cs)) @ bs) =
      strip_feed (p + length (c # cs), leds') bs"
    using assms feed by (simp add: c frame_of_def)
  moreover have "length leds' = length leds"
    using len by simp
  moreover have "\<forall>j < length leds. leds' ! j =
      (if p \<le> j \<and> j < p + length (c # cs) then (c # cs) ! (j - p) else leds ! j)"
  proof (intro allI impI)
    fix j assume j: "j < length leds"
    then have "leds' ! j =
        (if p + 1 \<le> j \<and> j < p + 1 + length cs then cs ! (j - (p + 1)) else ?l ! j)"
      using nth by simp
    then show "leds' ! j =
        (if p \<le> j \<and> j < p + length (c # cs) then (c # cs) ! (j - p) else leds ! j)"
      using j by (cases "j = p") (auto simp add: c nth_Cons' nth_list_update)
  qed
  ultimately show ?case by blast
qed

lemma strip_feed_blank_strip:
  assumes "length leds = NUM_LEDS"
  shows "\<exists>q. strip_feed (p, leds) (blank_strip @ bs) =
           strip_feed (q, replicate NUM_LEDS (0, 0, 0)) bs"
proof -
  let ?cs = "replicate (Suc NUM_LEDS) ((0, 0, 0) :: rgb)"
  have h: "(224 :: u8) \<noteq> 0" by simp
  have b: "concat (replicate (Suc NUM_LEDS) blank_frame) = concat (map (frame_of 224) ?cs)"
    unfolding blank_frame_def map_replicate ..
  from strip_feed_frames [OF h, of 0 leds ?cs bs] obtain leds' where
    feed: "strip_feed (0, leds) (concat (map (frame_of 224) ?cs) @ bs) =
             strip_feed (0 + length ?cs, leds') bs"
    and len: "length leds' = length leds"
    and nth: "\<forall>j < length leds. leds' ! j =
        (if 0 \<le> j \<and> j < 0 + length ?cs then ?cs ! (j - 0) else leds ! j)"
    by blast
  have "leds' ! j = (0, 0, 0)" if "j < NUM_LEDS" for j
  proof -
    from that have "j < Suc NUM_LEDS" by simp
    then have "?cs ! j = (0, 0, 0)" by (rule nth_replicate)
    with nth that assms show ?thesis by simp
  qed
  with len assms have "leds' = replicate NUM_LEDS (0, 0, 0)"
    by (simp add: list_eq_iff_nth_eq)
  with feed show ?thesis
    unfolding blank_strip_def b append_assoc strip_feed_start by blast
qed

lemma strip_feed_leds:
  assumes "length leds = NUM_LEDS" and "length cs \<le> NUM_LEDS"
  shows "snd (strip_feed (p, leds) (start_frame @ concat (map led_frame cs))) =
           cs @ drop (length cs) leds"
proof -
  have h: "224 + BRIGHTNESS \<noteq> 0" by (simp add: BRIGHTNESS_def)
  have f: "map led_frame cs = map (frame_of (224 + BRIGHTNESS)) cs"
    by (simp add: led_frame_def)
  from strip_feed_frames [OF h, of 0 leds cs "[]"] obtain leds' where
    feed: "strip_feed (0, leds) (concat (map (frame_of (224 + BRIGHTNESS)) cs) @ []) =
             strip_feed (0 + length cs, leds') []"
    and len: "length leds' = length leds"
    and nth: "\<forall>j < length leds. leds' ! j =
        (if 0 \<le> j \<and> j < 0 + length cs then cs ! (j - 0) else leds ! j)"
    by blast
  have "leds' = cs @ drop (length cs) leds"
    using len nth assms by (auto simp add: list_eq_iff_nth_eq nth_append)
  with feed show ?thesis
    by (simp add: strip_feed_start f)
qed

subsection \<open>What a render shows\<close>

lemma rpm_rpmtoLS: "rpm (rpmtoLS st) = rpm_of_capture (rpmCaptureValue st)"
  by (simp add: rpmtoLS_eq)

lemma ledsON_rpmtoLS:
  "unat (ledsON (rpmtoLS st)) = (unat (rpm (rpmtoLS st)) * NUM_LEDS) div (MAX_RPM - 1500)"
  by (simp add: rpmtoLS_eq unat_leds_of_rpm)

lemma sent_flash:
  assumes "NUM_LEDS < (unat (rpm (rpmtoLS st)) * NUM_LEDS) div (MAX_RPM - 1500)"
  shows "sent st (rpmtoLS st) =
    blank_strip @
    (if LSflash_flag st then start_frame @ concat (replicate NUM_LEDS (led_frame (255, 0, 0)))
     else blank_strip)"
  using assms by (simp add: sent_rpmtoLS rendered_def Let_def unat_leds_of_rpm rpm_rpmtoLS)

lemma sent_bar:
  assumes "k = (unat (rpm (rpmtoLS st)) * NUM_LEDS) div (MAX_RPM - 1500)"
    and "k \<le> NUM_LEDS" and "length (lightstrip st) = NUM_LEDS"
  shows "sent st (rpmtoLS st) =
    blank_strip @ start_frame @ concat (map led_frame (take k (lightstrip st)))"
  using assms
  by (simp add: sent_rpmtoLS rendered_def Let_def unat_leds_of_rpm rpm_rpmtoLS map_nth_take)

lemma strip_after_blank:
  assumes "length leds = NUM_LEDS"
  shows "snd (strip_feed (p, leds) blank_strip) = replicate NUM_LEDS (0, 0, 0)"
  using strip_feed_blank_strip [OF assms, of p "[]"] by auto

lemma strip_after_blank_twice:
  assumes "length leds = NUM_LEDS"
  shows "snd (strip_feed (p, leds) (blank_strip @ blank_strip)) = replicate NUM_LEDS (0, 0, 0)"
proof -
  from strip_feed_blank_strip [OF assms, of p blank_strip] obtain q where
    "strip_feed (p, leds) (blank_strip @ blank_strip) =
       strip_feed (q, replicate NUM_LEDS (0, 0, 0)) blank_strip"
    by blast
  then show ?thesis by (simp add: strip_after_blank)
qed

lemma strip_after_colours:
  assumes "length leds = NUM_LEDS" and "length cs \<le> NUM_LEDS"
  shows "snd (strip_feed (p, leds) (blank_strip @ start_frame @ concat (map led_frame cs))) =
    cs @ replicate (NUM_LEDS - length cs) (0, 0, 0)"
proof -
  from strip_feed_blank_strip [OF assms(1), of p "start_frame @ concat (map led_frame cs)"]
  obtain q where
    "strip_feed (p, leds) (blank_strip @ start_frame @ concat (map led_frame cs)) =
       strip_feed (q, replicate NUM_LEDS (0, 0, 0)) (start_frame @ concat (map led_frame cs))"
    by blast
  then show ?thesis using assms(2) by (simp add: strip_feed_leds)
qed

subsection \<open>The division in double precision\<close>

text \<open>
  The conversion discards the fraction of the double quotient. Whatever real number \<open>r\<close>
  the division returns, if it is the exact quotient whenever that is an integer and
  otherwise closer to the exact quotient than one part in the divisor, then discarding
  its fraction gives the integer quotient. The divisor \<open>t * 8\<close> is below \<open>2\<^sup>1\<^sup>9\<close> and the
  quotient below \<open>2\<^sup>2\<^sup>3\<close>, so a correctly rounded double quotient meets both conditions
  by a wide margin; this is why \<open>rpm_of_capture\<close> is written with \<open>div\<close>.
\<close>

lemma truncation_of_near_quotient:
  fixes r :: real and n t :: nat
  assumes t: "0 < t"
    and exact: "n mod t = 0 \<Longrightarrow> r = real n / real t"
    and near: "\<bar>r - real n / real t\<bar> < 1 / real t"
  shows "\<lfloor>r\<rfloor> = int (n div t)"
proof (cases "n mod t = 0")
  case True
  then have "t dvd n" by (simp add: dvd_eq_mod_eq_0)
  then have "real n / real t = real (n div t)"
    by (simp add: real_of_nat_div)
  with exact [OF True] show ?thesis by simp
next
  case False
  let ?d = "n div t" and ?m = "n mod t"
  have n: "real n = real ?d * real t + real ?m"
    by (metis div_mult_mod_eq of_nat_add of_nat_mult)
  have q: "real n / real t = real ?d + real ?m / real t"
    using t by (simp add: n add_divide_distrib)
  from False have m1: "1 \<le> real ?m" by simp
  from t have "?m < t" by simp
  then have m2: "real ?m + 1 \<le> real t" by simp
  have lo: "real ?d \<le> real n / real t - 1 / real t"
    using t m1 by (simp add: q field_simps)
  have hi: "real n / real t + 1 / real t \<le> real ?d + 1"
    using t m2 by (simp add: q field_simps)
  from near have "real n / real t - 1 / real t < r" "r < real n / real t + 1 / real t"
    by linarith+
  with lo hi have "real ?d \<le> r" "r < real ?d + 1" by linarith+
  then show ?thesis by (intro floor_unique) simp_all
qed

lemma rpm_of_capture_double:
  fixes r :: real
  assumes "t \<noteq> 0"
    and "(750000 * 60) mod (unat t * 8) = 0 \<Longrightarrow> r = real (750000 * 60) / real (unat t * 8)"
    and "\<bar>r - real (750000 * 60) / real (unat t * 8)\<bar> < 1 / real (unat t * 8)"
  shows "word_of_int \<lfloor>r\<rfloor> = rpm_of_capture t"
proof -
  from assms(1) have "0 < unat t * 8"
    by (simp add: unat_gt_0)
  from truncation_of_near_quotient [OF this assms(2) assms(3)] assms(1)
  show ?thesis by (simp add: rpm_of_capture_def)
qed

subsection \<open>Inside one handler entry\<close>

lemma PORT6_IRQHandler_steps_last:
  "last (PORT6_IRQHandler_steps st) = PORT6_IRQHandler st"
  by (simp add: PORT6_IRQHandler_steps_def PORT6_IRQHandler_def Let_def)

text \<open>
  The paddle branches of the handler switch the requested relay on before they switch
  the other one off: the first write of such a branch leaves both outputs on if the
  other relay was engaged.
\<close>

lemma first_write_of_paddle_branch:
  "bit p 5 \<Longrightarrow> bit (p OR BIT4) 4 \<and> bit (p OR BIT4) 5"
  "bit p 4 \<Longrightarrow> bit (p OR BIT5) 4 \<and> bit (p OR BIT5) 5"
  by (simp_all add: bit_simps)

text \<open>
  Between events, that is after whole handler entries and whole main-loop passes, the two
  relay outputs are not both on, whatever the ports held at reset.
\<close>

lemma relays_exclusive_between_events:
  "RelayState (run (boot p4 p6 p8) evs) \<noteq> BothEngaged \<and>
   \<not> (P8OUT (run (boot p4 p6 p8) evs) AND BIT4 \<noteq> 0 \<and>
      P8OUT (run (boot p4 p6 p8) evs) AND BIT5 \<noteq> 0)"
proof -
  have "RelayState (run (boot p4 p6 p8) evs) \<noteq> BothEngaged"
    by (rule run_RelayState_not_both) (simp add: boot_Idle)
  then show ?thesis
    by (auto simp add: RelayState_def split: if_splits)
qed

section \<open>Shift interlock\<close>

text \<open>
  Claim C1, as amended. One entry of the port-6 handler, for any content of the
  pending-flag register: from the idle relay state the relay state changes only when an
  up-paddle or a down-paddle edge is serviced, to up-engaged and down-engaged
  respectively; from either engaged relay state the relay state returns to idle exactly
  when a hall-sensor confirmation is serviced, of either direction (the handler switches
  both relays off on each of the two).
\<close>

theorem interlock_transitions:
  "(RelayState st = Idle \<longrightarrow>
      RelayState (PORT6_IRQHandler st) =
        (case serviced (P6IFG st) of
           Some UpPaddlePulled \<Rightarrow> UpRelayEngaged
         | Some DownPaddlePulled \<Rightarrow> DownRelayEngaged
         | _ \<Rightarrow> Idle)) \<and>
   (RelayState st = UpRelayEngaged \<or> RelayState st = DownRelayEngaged \<longrightarrow>
      (RelayState (PORT6_IRQHandler st) = Idle) =
      (serviced (P6IFG st) = Some UpShiftConfirmed \<or>
       serviced (P6IFG st) = Some DownShiftConfirmed))"
  by (auto simp add: handler_RelayState split: option.split signal.split)

theorem interlock_transitions_witness:
  "RelayState (step (boot 0 0 0) (Edge BIT0)) = Idle \<and>
   RelayState (PORT6_IRQHandler (step (boot 0 0 0) (Edge BIT0))) = UpRelayEngaged \<and>
   RelayState (step (run (boot 0 0 0) (pull DownPaddlePulled)) (Edge BIT4)) = DownRelayEngaged \<and>
   RelayState (PORT6_IRQHandler (step (run (boot 0 0 0) (pull DownPaddlePulled)) (Edge BIT4)))
     = Idle"
proof -
  let ?a = "step (boot 0 0 0) (Edge BIT0)"
  let ?b = "step (run (boot 0 0 0) (pull DownPaddlePulled)) (Edge BIT4)"
  have a: "RelayState ?a = Idle" "serviced (P6IFG ?a) = Some UpPaddlePulled"
    by code_simp+
  have b: "RelayState ?b = DownRelayEngaged" "serviced (P6IFG ?b) = Some UpShiftConfirmed"
    by code_simp+
  from a interlock_transitions [of ?a]
  have "RelayState (PORT6_IRQHandler ?a) = UpRelayEngaged" by simp
  moreover from b interlock_transitions [of ?b]
  have "RelayState (PORT6_IRQHandler ?b) = Idle" by simp
  ultimately show ?thesis using a(1) b(1) by simp
qed

text \<open>
  Claim C1 as stated fails: with the up relay engaged, the down hall-sensor confirmation,
  which is not the matching one, returns the relay state to idle.
\<close>

theorem interlock_unmatched_confirmation:
  "RelayState (run (boot 0 0 0) (pull UpPaddlePulled)) = UpRelayEngaged \<and>
   RelayState (run (boot 0 0 0) (pull UpPaddlePulled @ pull DownShiftConfirmed)) = Idle"
  by code_simp

text \<open>
  Claim C3, where the code departs from it. With the down relay engaged, a pull of the up
  paddle makes the handler execute \<open>P8OUT |= BIT4\<close> and only then \<open>P8OUT &= ~BIT5\<close>:
  after the first of the two writes the output register holds \<open>0x30\<close>, the up relay
  output and the down relay output both on, until the second write switches the down
  relay off. The two outputs are exclusive only between events
  (\<open>relays_exclusive_between_events\<close>), not at every value the port takes.
\<close>

theorem relays_both_on_inside_handler:
  "RelayState (run (boot 0 0 0) (pull DownPaddlePulled @ [Edge BIT0])) = DownRelayEngaged \<and>
   serviced (P6IFG (run (boot 0 0 0) (pull DownPaddlePulled @ [Edge BIT0])))
     = Some UpPaddlePulled \<and>
   map P8OUT (PORT6_IRQHandler_steps (run (boot 0 0 0) (pull DownPaddlePulled @ [Edge BIT0])))
     = [0x30, 0x10, 0x10] \<and>
   RelayState (hd (PORT6_IRQHandler_steps
     (run (boot 0 0 0) (pull DownPaddlePulled @ [Edge BIT0])))) = BothEngaged \<and>
   RelayState (last (PORT6_IRQHandler_steps
     (run (boot 0 0 0) (pull DownPaddlePulled @ [Edge BIT0])))) = UpRelayEngaged \<and>
   RelayState (run (boot 0 0 0) (pull DownPaddlePulled @ pull UpPaddlePulled))
     = UpRelayEngaged"
  by code_simp

text \<open>
  Claim C9, where the code departs from it. With the up paddle (bit 0) and the up hall
  sensor (bit 4) both pending, the handler services the paddle only, yet its final
  \<open>P6IFG &= ~0xFF\<close> clears the hall sensor's pending flag too: the confirmation is
  lost, \<open>up_flag\<close> is not raised and the up relay stays engaged.
\<close>

theorem handler_clears_unserviced_flag:
  "serviced (P6IFG (step (boot 0 0 0) (Edge (BIT0 OR BIT4)))) = Some UpPaddlePulled \<and>
   P6IFG (step (boot 0 0 0) (Edge (BIT0 OR BIT4))) AND BIT4 \<noteq> 0 \<and>
   P6IFG (run (boot 0 0 0) [Edge (BIT0 OR BIT4), Port6IRQ]) AND BIT4 = 0 \<and>
   \<not> up_flag (run (boot 0 0 0) [Edge (BIT0 OR BIT4), Port6IRQ]) \<and>
   RelayState (run (boot 0 0 0) [Edge (BIT0 OR BIT4), Port6IRQ, Port6IRQ, MainPass])
     = UpRelayEngaged"
  by code_simp

section \<open>Gear index and gear display\<close>

text \<open>
  Claim C2. In every state \<open>s\<close> reached from start-up by any sequence of edges, handler
  entries and main-loop passes: the gear index lies between 1 and 6; any further event
  moves it by at most one; it moves only in a main-loop pass that finds \<open>up_flag\<close> or
  \<open>down_flag\<close> raised; a handler entry that services a paddle pull leaves the gear
  index and both flags as they were; and over the whole run the gear index has changed at
  most as many times as the handler has serviced a hall-sensor confirmation.
\<close>

theorem gear_index_follows_confirmations:
  assumes "s = run (boot p4 p6 p8) evs"
  shows "1 \<le> gearIndex s \<and> gearIndex s \<le> 6 \<and>
    unat (gearIndex (step s e)) \<le> unat (gearIndex s) + 1 \<and>
    unat (gearIndex s) \<le> unat (gearIndex (step s e)) + 1 \<and>
    (gearIndex (step s e) \<noteq> gearIndex s \<longrightarrow> e = MainPass \<and> (up_flag s \<or> down_flag s)) \<and>
    (serviced (P6IFG s) = Some UpPaddlePulled \<or> serviced (P6IFG s) = Some DownPaddlePulled \<longrightarrow>
       gearIndex (PORT6_IRQHandler s) = gearIndex s \<and>
       up_flag (PORT6_IRQHandler s) = up_flag s \<and>
       down_flag (PORT6_IRQHandler s) = down_flag s) \<and>
    gear_changes (boot p4 p6 p8) evs \<le> confirmations (boot p4 p6 p8) evs"
proof -
  have "1 \<le> unat (gearIndex s) \<and> unat (gearIndex s) \<le> 6"
    unfolding assms by (rule run_gear_range) (simp add: boot_fields)
  then have range: "1 \<le> gearIndex s \<and> gearIndex s \<le> 6"
    by (simp add: word_le_nat_alt)
  have near: "unat (gearIndex (step s e)) \<le> unat (gearIndex s) + 1 \<and>
      unat (gearIndex s) \<le> unat (gearIndex (step s e)) + 1"
    by (auto simp add: step_gearIndex main_gear_unat)
  have cause: "gearIndex (step s e) \<noteq> gearIndex s \<longrightarrow>
      e = MainPass \<and> (up_flag s \<or> down_flag s)"
    by (auto simp add: step_gearIndex main_gearIndex split: if_splits)
  have paddle: "serviced (P6IFG s) = Some UpPaddlePulled \<or>
      serviced (P6IFG s) = Some DownPaddlePulled \<longrightarrow>
       gearIndex (PORT6_IRQHandler s) = gearIndex s \<and>
       up_flag (PORT6_IRQHandler s) = up_flag s \<and>
       down_flag (PORT6_IRQHandler s) = down_flag s"
    by (auto simp add: handler_gearIndex handler_flags)
  have count: "gear_changes (boot p4 p6 p8) evs \<le> confirmations (boot p4 p6 p8) evs"
    using changes_le_confirmations [of "boot p4 p6 p8" evs] by (simp add: boot_fields)
  from range near cause paddle count show ?thesis by blast
qed

theorem gear_index_follows_confirmations_witness:
  "gearIndex (run (boot 0 0 0) (pull UpPaddlePulled @ pull UpShiftConfirmed)) = 1 \<and>
   gearIndex (step (run (boot 0 0 0) (pull UpPaddlePulled @ pull UpShiftConfirmed)) MainPass) = 2 \<and>
   up_flag (run (boot 0 0 0) (pull UpPaddlePulled @ pull UpShiftConfirmed)) \<and>
   gear_changes (boot 0 0 0) (pull UpPaddlePulled @ pull UpShiftConfirmed)
     \<le> confirmations (boot 0 0 0) (pull UpPaddlePulled @ pull UpShiftConfirmed) \<and>
   serviced (P6IFG (run (boot 0 0 0) [Edge BIT1])) = Some DownPaddlePulled \<and>
   gearIndex (PORT6_IRQHandler (run (boot 0 0 0) [Edge BIT1])) = 1 \<and>
   \<not> down_flag (PORT6_IRQHandler (run (boot 0 0 0) [Edge BIT1]))"
proof -
  let ?a = "run (boot 0 0 0) (pull UpPaddlePulled @ pull UpShiftConfirmed)"
  let ?b = "run (boot 0 0 0) [Edge BIT1]"
  have a: "gearIndex ?a = 1" "gearIndex (step ?a MainPass) = 2"
    by code_simp+
  have b: "serviced (P6IFG ?b) = Some DownPaddlePulled" "gearIndex ?b = 1" "\<not> down_flag ?b"
    by code_simp+
  from a gear_index_follows_confirmations [OF refl, of 0 0 0
      "pull UpPaddlePulled @ pull UpShiftConfirmed" MainPass]
  have "up_flag ?a \<or> down_flag ?a"
    and "gear_changes (boot 0 0 0) (pull UpPaddlePulled @ pull UpShiftConfirmed)
     \<le> confirmations (boot 0 0 0) (pull UpPaddlePulled @ pull UpShiftConfirmed)"
    by simp_all
  moreover have "\<not> down_flag ?a" by code_simp
  moreover from b gear_index_follows_confirmations [OF refl, of 0 0 0 "[Edge BIT1]" MainPass]
  have "gearIndex (PORT6_IRQHandler ?b) = 1" "\<not> down_flag (PORT6_IRQHandler ?b)"
    by simp_all
  ultimately show ?thesis using a b by blast
qed

text \<open>
  Claim C7, where the code departs from it. The main loop resets \<open>up_flag\<close> only inside
  the branch guarded by \<open>gearIndex < 6\<close>, so a confirmed upshift at gear 6 leaves the
  flag raised. The gear index stays at 6 then, but the request is not dropped: after the
  next confirmed downshift has brought the index to 5, the following pass of the main
  loop finds the stale flag and moves the index back to 6 with no new confirmation.
\<close>

theorem stale_upshift_at_top_gear:
  "gearIndex (run (boot 0 0 0) (concat (replicate 5 upshift))) = 6 \<and>
   gearIndex (run (boot 0 0 0) (concat (replicate 6 upshift))) = 6 \<and>
   up_flag (run (boot 0 0 0) (concat (replicate 6 upshift))) \<and>
   gearIndex (run (boot 0 0 0) (concat (replicate 6 upshift) @ downshift)) = 5 \<and>
   gearIndex (run (boot 0 0 0) (concat (replicate 6 upshift) @ downshift @ [MainPass])) = 6"
  by code_simp

text \<open>
  Claim C10. For every index \<open>g\<close> from 0 to 9 the entry of \<open>gearOFF\<close> is the bitwise
  complement of the entry of \<open>gearON\<close>; so setting the on-mask by OR and clearing the
  off-mask by AND-NOT leaves exactly \<open>gearON[g]\<close> on the port, whatever it held before,
  and that is what a main-loop pass that changes the gear index to \<open>g\<close> leaves on
  \<open>P4OUT\<close>.
\<close>

theorem gear_masks_complementary:
  assumes "g < 10"
  shows "gearOFF ! g = NOT (gearON ! g) \<and>
    gearON ! g OR gearOFF ! g = 0xFF \<and>
    gearON ! g AND gearOFF ! g = 0 \<and>
    show_gear p g = gearON ! g \<and>
    (gearIndex (main_loop_body st) \<noteq> gearIndex st \<and> unat (gearIndex (main_loop_body st)) = g
       \<longrightarrow> P4OUT (main_loop_body st) = gearON ! g)"
proof -
  from assms have "g = 0 \<or> g = 1 \<or> g = 2 \<or> g = 3 \<or> g = 4 \<or> g = 5 \<or> g = 6 \<or> g = 7 \<or>
      g = 8 \<or> g = 9"
    by arith
  then have compl: "gearOFF ! g = NOT (gearON ! g)"
    by (elim disjE) (simp_all add: gearON_def gearOFF_def)
  have or: "gearON ! g OR NOT (gearON ! g) = 0xFF"
    by simp
  have exact: "show_gear q g = gearON ! g" for q
    unfolding show_gear_def compl by (auto simp add: bit_eq_iff bit_simps)
  have "gearIndex (main_loop_body st) \<noteq> gearIndex st \<and>
      unat (gearIndex (main_loop_body st)) = g \<longrightarrow> P4OUT (main_loop_body st) = gearON ! g"
    using exact [of "P4OUT st"] by (auto simp add: main_P4OUT)
  with compl or exact show ?thesis by simp
qed

theorem gear_masks_complementary_witness:
  "(4 :: nat) < 10 \<and> gearOFF ! 4 = NOT (gearON ! 4) \<and> show_gear 0xFF 4 = 0xC5 \<and>
   P4OUT (main_loop_body (run (boot 0 0 0)
     (concat (replicate 2 upshift) @ pull UpPaddlePulled @ pull UpShiftConfirmed))) = 0xC5"
proof -
  let ?s = "run (boot 0 0 0)
     (concat (replicate 2 upshift) @ pull UpPaddlePulled @ pull UpShiftConfirmed)"
  have h: "(4 :: nat) < 10" by simp
  have g: "gearON ! 4 = 0xC5" by (simp add: gearON_def)
  have s: "gearIndex (main_loop_body ?s) \<noteq> gearIndex ?s"
    "unat (gearIndex (main_loop_body ?s)) = 4"
    by code_simp+
  from gear_masks_complementary [OF h, of "0xFF" ?s] s g show ?thesis by simp
qed

section \<open>Lightstrip\<close>

text \<open>
  Claim C8, where the code departs from it. \<open>clearLS\<close> sends one start frame of four zero
  bytes and then frames of the header byte \<open>0xE0\<close> and three zero colour bytes, but its
  loop runs while \<open>i <= NUM_LEDS\<close>: it sends 31 such frames for the 30 LEDs of the
  strip, 128 bytes in all, where one start frame and 30 frames are claimed.
\<close>

theorem clearLS_frame_count:
  "NUM_LEDS = 30 \<and>
   sent (boot 0 0 0) (clearLS (boot 0 0 0)) =
     [0, 0, 0, 0] @ concat (replicate 31 [0xE0, 0, 0, 0]) \<and>
   length (sent (boot 0 0 0) (clearLS (boot 0 0 0))) = 4 + 4 * 31 \<and>
   sent (boot 0 0 0) (clearLS (boot 0 0 0)) \<noteq>
     [0, 0, 0, 0] @ concat (replicate NUM_LEDS [0xE0, 0, 0, 0])"
  by code_simp

text \<open>
  Claim C5. When the number of LEDs computed for the speed,
  \<open>(rpm * NUM_LEDS) / (MAX_RPM - 1500)\<close>, exceeds \<open>NUM_LEDS\<close>, one call of \<open>rpmtoLS\<close> sends
  a clearing of the strip followed, when \<open>LSflash_flag\<close> is set, by a start frame and
  \<open>NUM_LEDS\<close> frames of red at the configured brightness, and otherwise by a second
  clearing. A strip of \<open>NUM_LEDS\<close> LEDs reading these bytes ends with every LED red in
  the first case and every LED off in the second, whatever it showed before.
\<close>

theorem flash_mode_render:
  assumes "NUM_LEDS < (unat (rpm (rpmtoLS st)) * NUM_LEDS) div (MAX_RPM - 1500)"
  shows "sent st (rpmtoLS st) =
      blank_strip @
      (if LSflash_flag st
       then start_frame @ concat (replicate NUM_LEDS (led_frame (255, 0, 0)))
       else blank_strip) \<and>
    (length leds = NUM_LEDS \<longrightarrow>
      snd (strip_feed (p, leds) (sent st (rpmtoLS st))) =
        replicate NUM_LEDS (if LSflash_flag st then (255, 0, 0) else (0, 0, 0)))"
proof -
  note bytes = sent_flash [OF assms]
  have "snd (strip_feed (p, leds) (sent st (rpmtoLS st))) =
      replicate NUM_LEDS (if LSflash_flag st then (255, 0, 0) else (0, 0, 0))"
    if len: "length leds = NUM_LEDS"
  proof (cases "LSflash_flag st")
    case True
    have "concat (replicate NUM_LEDS (led_frame (255, 0, 0))) =
        concat (map led_frame (replicate NUM_LEDS (255, 0, 0)))"
      unfolding map_replicate ..
    then have "sent st (rpmtoLS st) =
        blank_strip @ start_frame @ concat (map led_frame (replicate NUM_LEDS (255, 0, 0)))"
      using True bytes by simp
    then have "snd (strip_feed (p, leds) (sent st (rpmtoLS st))) =
        replicate NUM_LEDS (255, 0, 0) @
        replicate (NUM_LEDS - length (replicate NUM_LEDS ((255, 0, 0) :: rgb))) (0, 0, 0)"
      using strip_after_colours [OF len, of "replicate NUM_LEDS (255, 0, 0)" p] by simp
    with True show ?thesis by simp
  next
    case False
    with bytes have "sent st (rpmtoLS st) = blank_strip @ blank_strip" by simp
    with False strip_after_blank_twice [OF len, of p] show ?thesis by simp
  qed
  with bytes show ?thesis by blast
qed

theorem flash_mode_render_witness:
  "NUM_LEDS < (unat (rpm (rpmtoLS (run (boot 0 0 0) [FlashIRQ, TachIRQ 500]))) * NUM_LEDS)
      div (MAX_RPM - 1500) \<and>
   sent (run (boot 0 0 0) [FlashIRQ, TachIRQ 500])
        (rpmtoLS (run (boot 0 0 0) [FlashIRQ, TachIRQ 500])) =
     blank_strip @ start_frame @ concat (replicate NUM_LEDS (led_frame (255, 0, 0))) \<and>
   snd (strip_feed (0, LedZoneTable)
        (sent (run (boot 0 0 0) [FlashIRQ, TachIRQ 500])
           (rpmtoLS (run (boot 0 0 0) [FlashIRQ, TachIRQ 500])))) =
     replicate NUM_LEDS (255, 0, 0)"
proof -
  let ?s = "run (boot 0 0 0) [FlashIRQ, TachIRQ 500]"
  have h: "NUM_LEDS < (unat (rpm (rpmtoLS ?s)) * NUM_LEDS) div (MAX_RPM - 1500)"
    by (simp add: rpm_rpmtoLS rpm_of_capture_def TA0_0_IRQHandler_def led_consts MAX_RPM_def)
  have f: "LSflash_flag ?s"
    by (simp add: TA0_0_IRQHandler_def TA1_0_IRQHandler_def boot_fields)
  note r = flash_mode_render [OF h, of LedZoneTable 0]
  from r [THEN conjunct1] f
  have a: "sent ?s (rpmtoLS ?s) =
      blank_strip @ start_frame @ concat (replicate NUM_LEDS (led_frame (255, 0, 0)))"
    by simp
  from r [THEN conjunct2, rule_format, OF length_LedZoneTable] f
  have b: "snd (strip_feed (0, LedZoneTable) (sent ?s (rpmtoLS ?s))) =
      replicate NUM_LEDS (255, 0, 0)"
    by simp
  from h a b show ?thesis by blast
qed

text \<open>
  Claim C6. The number of LEDs \<open>(rpm * NUM_LEDS) / (MAX_RPM - 1500)\<close> never decreases
  when the speed increases. When this number \<open>k\<close> is at most \<open>NUM_LEDS\<close>, one call of
  \<open>rpmtoLS\<close> sends a clearing of the strip, a start frame and the frames of the first
  \<open>k\<close> entries of the colour table, in order. A strip of \<open>NUM_LEDS\<close> LEDs reading these
  bytes ends with its first \<open>k\<close> LEDs in the colours of the table and all others off,
  whatever it showed before; the LEDs lit are exactly those below index \<open>k\<close>.
\<close>

theorem bar_mode_render:
  assumes "lightstrip st = LedZoneTable"
    and "k = (unat (rpm (rpmtoLS st)) * NUM_LEDS) div (MAX_RPM - 1500)"
    and "k \<le> NUM_LEDS"
  shows "(\<forall>r r'. r \<le> r' \<longrightarrow> leds_of_rpm r \<le> leds_of_rpm r') \<and>
    (\<forall>r. unat (leds_of_rpm r) = (unat r * NUM_LEDS) div (MAX_RPM - 1500)) \<and>
    unat (ledsON (rpmtoLS st)) = k \<and>
    sent st (rpmtoLS st) =
      blank_strip @ start_frame @ concat (map led_frame (take k LedZoneTable)) \<and>
    (length leds = NUM_LEDS \<longrightarrow>
      snd (strip_feed (p, leds) (sent st (rpmtoLS st))) =
        take k LedZoneTable @ replicate (NUM_LEDS - k) (0, 0, 0)) \<and>
    (\<forall>j < NUM_LEDS.
       lit ((take k LedZoneTable @ replicate (NUM_LEDS - k) (0, 0, 0)) ! j) = (j < k))"
proof -
  have mono: "\<forall>r r'. r \<le> r' \<longrightarrow> leds_of_rpm r \<le> leds_of_rpm r'"
    by (simp add: leds_of_rpm_mono)
  have formula: "\<forall>r. unat (leds_of_rpm r) = (unat r * NUM_LEDS) div (MAX_RPM - 1500)"
    by (simp add: unat_leds_of_rpm)
  have count: "unat (ledsON (rpmtoLS st)) = k"
    by (simp add: assms(2) ledsON_rpmtoLS)
  have len: "length (lightstrip st) = NUM_LEDS"
    by (simp add: assms(1) length_LedZoneTable)
  have bytes: "sent st (rpmtoLS st) =
      blank_strip @ start_frame @ concat (map led_frame (take k LedZoneTable))"
    using sent_bar [OF assms(2) assms(3) len] by (simp add: assms(1))
  have lk: "length (take k LedZoneTable) = k"
    using assms(3) by (simp add: length_LedZoneTable)
  have strip: "length leds = NUM_LEDS \<longrightarrow>
      snd (strip_feed (p, leds) (sent st (rpmtoLS st))) =
        take k LedZoneTable @ replicate (NUM_LEDS - k) (0, 0, 0)"
  proof
    assume l: "length leds = NUM_LEDS"
    from assms(3) lk have "length (take k LedZoneTable) \<le> NUM_LEDS" by simp
    from strip_after_colours [OF l this, of p] lk show
      "snd (strip_feed (p, leds) (sent st (rpmtoLS st))) =
        take k LedZoneTable @ replicate (NUM_LEDS - k) (0, 0, 0)"
      unfolding bytes by simp
  qed
  have lit: "\<forall>j < NUM_LEDS.
      lit ((take k LedZoneTable @ replicate (NUM_LEDS - k) (0, 0, 0)) ! j) = (j < k)"
  proof (intro allI impI)
    fix j assume j: "j < NUM_LEDS"
    show "lit ((take k LedZoneTable @ replicate (NUM_LEDS - k) (0, 0, 0)) ! j) = (j < k)"
    proof (cases "j < k")
      case True
      then have "(take k LedZoneTable @ replicate (NUM_LEDS - k) (0, 0, 0)) ! j =
          LedZoneTable ! j"
        using lk by (simp add: nth_append)
      with True j show ?thesis by (simp add: LedZoneTable_lit)
    next
      case False
      then have "(take k LedZoneTable @ replicate (NUM_LEDS - k) (0, 0, 0)) ! j = (0, 0, 0)"
        using lk j by (simp add: nth_append)
      with False show ?thesis by (simp add: lit_def)
    qed
  qed
  from mono formula count bytes strip lit show ?thesis by blast
qed

theorem bar_mode_render_witness:
  "lightstrip (run (boot 0 0 0) [TachIRQ 937]) = LedZoneTable \<and>
   (17 :: nat) = (unat (rpm (rpmtoLS (run (boot 0 0 0) [TachIRQ 937]))) * NUM_LEDS)
      div (MAX_RPM - 1500) \<and>
   (17 :: nat) \<le> NUM_LEDS \<and>
   leds_of_rpm 6003 \<le> leds_of_rpm 10849 \<and>
   sent (run (boot 0 0 0) [TachIRQ 937]) (rpmtoLS (run (boot 0 0 0) [TachIRQ 937])) =
     blank_strip @ start_frame @ concat (map led_frame (take 17 LedZoneTable)) \<and>
   snd (strip_feed (0, replicate NUM_LEDS (255, 0, 0))
     (sent (run (boot 0 0 0) [TachIRQ 937]) (rpmtoLS (run (boot 0 0 0) [TachIRQ 937])))) =
     take 17 LedZoneTable @ replicate (NUM_LEDS - 17) (0, 0, 0) \<and>
   \<not> lit ((take 17 LedZoneTable @ replicate (NUM_LEDS - 17) (0, 0, 0)) ! 17)"
proof -
  let ?s = "run (boot 0 0 0) [TachIRQ 937]"
  have t: "lightstrip ?s = LedZoneTable"
    by (simp add: TA0_0_IRQHandler_def boot_fields)
  have k: "(17 :: nat) = (unat (rpm (rpmtoLS ?s)) * NUM_LEDS) div (MAX_RPM - 1500)"
    by (simp add: rpm_rpmtoLS rpm_of_capture_def TA0_0_IRQHandler_def led_consts MAX_RPM_def)
  have n: "(17 :: nat) \<le> NUM_LEDS"
    by (simp add: led_consts)
  have le: "(6003 :: u16) \<le> 10849" by simp
  have l: "length (replicate NUM_LEDS ((255, 0, 0) :: rgb)) = NUM_LEDS" by simp
  have j: "(17 :: nat) < NUM_LEDS" by (simp add: led_consts)
  note r = bar_mode_render [OF t k n, of "replicate NUM_LEDS (255, 0, 0)" 0]
  from r le have 1: "leds_of_rpm 6003 \<le> leds_of_rpm 10849" by blast
  from r have 2: "sent ?s (rpmtoLS ?s) =
      blank_strip @ start_frame @ concat (map led_frame (take 17 LedZoneTable))" by blast
  from r l have 3: "snd (strip_feed (0, replicate NUM_LEDS (255, 0, 0)) (sent ?s (rpmtoLS ?s))) =
      take 17 LedZoneTable @ replicate (NUM_LEDS - 17) (0, 0, 0)" by blast
  from r j have 4: "\<not> lit ((take 17 LedZoneTable @ replicate (NUM_LEDS - 17) (0, 0, 0)) ! 17)"
    by blast
  from t k n 1 2 3 4 show ?thesis by blast
qed

section \<open>Speed from the tachometer count\<close>

text \<open>
  Claim C4, as amended. A count of 0 gives speed 0. For a count \<open>t\<close> of at least 86, the
  speed is \<open>(750000 * 60) / (t * 8)\<close> with the fraction discarded (rounded down, not to
  the nearest integer). Counts from 1 to 85 give a quotient above 65535 and are left out.
\<close>

theorem rpm_conversion_truncates:
  "rpm_of_capture 0 = 0 \<and>
   (86 \<le> unat t \<longrightarrow>
      int (unat (rpm_of_capture t)) = \<lfloor>(750000 * 60) / (real (unat t) * 8)\<rfloor>)"
proof -
  have zero: "rpm_of_capture 0 = 0"
    by (simp add: rpm_of_capture_def)
  have "int (unat (rpm_of_capture t)) = \<lfloor>(750000 * 60) / (real (unat t) * 8)\<rfloor>"
    if t: "86 \<le> unat t"
  proof -
    from t have nz: "t \<noteq> 0" by auto
    from t have "86 * 8 \<le> unat t * 8" by simp
    then have "(750000 * 60) div (unat t * 8) \<le> (750000 * 60) div (86 * 8)"
      by (intro div_le_mono2) simp_all
    then have small: "(750000 * 60) div (unat t * 8) < 2 ^ LENGTH(16)"
      by simp
    have "unat (rpm_of_capture t) = (750000 * 60) div (unat t * 8)"
      using nz small by (simp add: rpm_of_capture_def unat_of_nat)
    moreover have "\<lfloor>real (750000 * 60) / real (unat t * 8)\<rfloor> =
        int ((750000 * 60) div (unat t * 8))"
      by (rule floor_divide_of_nat_eq)
    ultimately show ?thesis by simp
  qed
  with zero show ?thesis by blast
qed

theorem rpm_conversion_truncates_witness:
  "(86 :: nat) \<le> unat (999 :: u16) \<and>
   int (unat (rpm_of_capture 999)) = \<lfloor>(750000 * 60) / (real (unat (999 :: u16)) * 8)\<rfloor> \<and>
   rpm_of_capture 999 = 5630"
proof -
  have h: "(86 :: nat) \<le> unat (999 :: u16)" by simp
  have v: "rpm_of_capture 999 = 5630" by (simp add: rpm_of_capture_def)
  from rpm_conversion_truncates [of 999] h v show ?thesis by blast
qed

text \<open>
  Claim C4 as stated fails: for the count 999 the quotient is 5630.63..., whose nearest
  integer is 5631, and the conversion yields 5630.
\<close>

theorem rpm_conversion_not_nearest:
  "int (unat (rpm_of_capture 999)) = 5630 \<and> spec_rpm (unat (999 :: u16)) = 5631"
proof -
  have "rpm_of_capture 999 = 5630" by (simp add: rpm_of_capture_def)
  then have "int (unat (rpm_of_capture 999)) = 5630" by simp
  moreover have "spec_rpm (unat (999 :: u16)) = 5631"
    unfolding spec_rpm_def by (rule round_unique) simp_all
  ultimately show ?thesis by blast
qed

end
